theory Spec2Isabelle
  imports Main "HOL-Library.Char_ord" "HOL-Library.List_Lexorder" "HOL-Library.Multiset"
begin

section \<open>Python string primitives used by genhooks.py\<close>

text \<open>
  A Python \<open>str\<close> is modelled as a \<open>string\<close>; a \<open>char\<close> stands for a code point
  below 256.  Python compares strings code point by code point, which is the
  lexicographic order of \<open>HOL-Library.List_Lexorder\<close> over \<open>HOL-Library.Char_ord\<close>.
\<close>

datatype error = ValueError | IndexError | ReError

definition nl :: char where
  "nl = CHR 0x0A"

definition dq :: char where
  "dq = CHR 0x22"

definition backslash :: char where
  "backslash = CHR 0x5C"

text \<open>\<open>str.isspace\<close> on the code points below 256.\<close>

definition isspace :: "char \<Rightarrow> bool" where
  "isspace c = (of_char c \<in> {9, 10, 11, 12, 13, 28, 29, 30, 31, 32, 133, 160 :: nat})"

text \<open>\<open>s.strip()\<close>: whitespace removed at both ends.\<close>

definition py_strip :: "string \<Rightarrow> string" where
  "py_strip s = rev (dropWhile isspace (rev (dropWhile isspace s)))"

text \<open>\<open>s.split(sep)\<close> for a one-character separator: never an empty list.\<close>

fun py_split :: "char \<Rightarrow> string \<Rightarrow> string list" where
  "py_split sep [] = [[]]"
| "py_split sep (c # cs) =
     (if c = sep then [] # py_split sep cs
      else (case py_split sep cs of
              [] \<Rightarrow> [[c]]
            | w # ws \<Rightarrow> (c # w) # ws))"

text \<open>\<open>sep.join(xs)\<close>.\<close>

fun py_join :: "string \<Rightarrow> string list \<Rightarrow> string" where
  "py_join sep [] = []"
| "py_join sep [x] = x"
| "py_join sep (x # y # ys) = x @ sep @ py_join sep (y # ys)"

text \<open>\<open>(name, type) = parts\<close>: the unpacking raises ValueError unless there are two parts.\<close>

fun unpack2 :: "string list \<Rightarrow> error + (string \<times> string)" where
  "unpack2 [a, b] = Inr (a, b)"
| "unpack2 _ = Inl ValueError"

text \<open>An optional string inside an f-string: \<open>None\<close> prints as the text None.\<close>

fun py_format :: "string option \<Rightarrow> string" where
  "py_format None = ''None''"
| "py_format (Some s) = s"

text \<open>\<open>x or 'None'\<close>: the default is taken for \<open>None\<close> and for the empty string.\<close>

fun or_None :: "string option \<Rightarrow> string" where
  "or_None None = ''None''"
| "or_None (Some s) = (if s = [] then ''None'' else s)"

text \<open>\<open>if x:\<close> on an optional string.\<close>

fun truthy :: "string option \<Rightarrow> bool" where
  "truthy None = False"
| "truthy (Some s) = (s \<noteq> [])"

section \<open>The Hook dataclass\<close>

record Hook =
  name :: string
  cb_args :: string
  return_type :: "string option"
  legacy_hook :: "string option"

text \<open>The loop of \<open>Hook.callable\<close>: the types of the non-empty segments, stripped.\<close>

fun callable_loop :: "string list \<Rightarrow> string list \<Rightarrow> error + string list" where
  "callable_loop [] types = Inr types"
| "callable_loop (arg # args) types =
     (if arg = [] then callable_loop args types
      else (case unpack2 (py_split CHR '':'' arg) of
              Inl e \<Rightarrow> Inl e
            | Inr (nm, ty) \<Rightarrow> callable_loop args (types @ [py_strip ty])))"

definition callable :: "Hook \<Rightarrow> error + string" where
  "callable h =
     (case callable_loop (py_split CHR '','' (cb_args h)) [] of
        Inl e \<Rightarrow> Inl e
      | Inr types \<Rightarrow>
          Inr (''Callable[['' @ py_join '', '' types @ ''], '' @ or_None (return_type h) @ '']''))"

text \<open>The loop of \<open>Hook.arg_names\<close>.\<close>

fun arg_names_loop :: "string list \<Rightarrow> string list \<Rightarrow> error + string list" where
  "arg_names_loop [] names = Inr names"
| "arg_names_loop (arg # args) names =
     (if arg = [] then arg_names_loop args names
      else (case unpack2 (py_split CHR '':'' arg) of
              Inl e \<Rightarrow> Inl e
            | Inr (nm, ty) \<Rightarrow> arg_names_loop args (names @ [py_strip nm])))"

definition arg_names :: "Hook \<Rightarrow> error + string list" where
  "arg_names h = arg_names_loop (py_split CHR '','' (cb_args h)) []"

definition kind :: "Hook \<Rightarrow> string" where
  "kind h = (if return_type h \<noteq> None then ''filter'' else ''hook'')"

definition full_name :: "Hook \<Rightarrow> string" where
  "full_name h = name h @ ''_'' @ kind h"

definition list_code :: "Hook \<Rightarrow> error + string" where
  "list_code h =
     (case callable h of
        Inl e \<Rightarrow> Inl e
      | Inr c \<Rightarrow> Inr (full_name h @ '': List['' @ c @ ''] = []'' @ [nl]))"

text \<open>The optional legacy call appended to a dispatch function.\<close>

definition legacy_code :: "string \<Rightarrow> Hook \<Rightarrow> string list \<Rightarrow> string" where
  "legacy_code fn h names =
     (if truthy (legacy_hook h)
      then ''    # legacy support'' @ [nl] @
           ''    '' @ fn @ ''('' @
             py_join '', '' (([dq] @ py_format (legacy_hook h) @ [dq]) # names) @ '')'' @ [nl]
      else [])"

definition hook_fire_code :: "Hook \<Rightarrow> error + string" where
  "hook_fire_code h =
     (case arg_names h of
        Inl e \<Rightarrow> Inl e
      | Inr names \<Rightarrow>
          Inr (''def run_'' @ full_name h @ ''('' @ cb_args h @ '') -> None:'' @ [nl] @
               ''    for hook in '' @ full_name h @ '':'' @ [nl] @
               ''        try:'' @ [nl] @
               ''            hook('' @ py_join '', '' names @ '')'' @ [nl] @
               ''        except:'' @ [nl] @
               ''            # if the hook fails, remove it'' @ [nl] @
               ''            '' @ full_name h @ ''.remove(hook)'' @ [nl] @
               ''            raise'' @ [nl] @
               legacy_code ''runHook'' h names @
               [nl, nl]))"

definition filter_fire_code :: "Hook \<Rightarrow> error + string" where
  "filter_fire_code h =
     (case arg_names h of
        Inl e \<Rightarrow> Inl e
      | Inr names \<Rightarrow>
          (case names of
             [] \<Rightarrow> Inl IndexError
           | first # _ \<Rightarrow>
               Inr (''def run_'' @ full_name h @ ''('' @ cb_args h @ '') -> '' @
                      py_format (return_type h) @ '':'' @ [nl] @
                    ''    for filter in '' @ full_name h @ '':'' @ [nl] @
                    ''        try:'' @ [nl] @
                    ''            '' @ first @ '' = filter('' @ py_join '', '' names @ '')'' @ [nl] @
                    ''        except:'' @ [nl] @
                    ''            # if the hook fails, remove it'' @ [nl] @
                    ''            '' @ full_name h @ ''.remove(filter)'' @ [nl] @
                    ''            raise'' @ [nl] @
                    legacy_code ''runFilter'' h names @
                    ''    return '' @ first @ [nl] @
                    [nl, nl])))"

definition fire_code :: "Hook \<Rightarrow> error + string" where
  "fire_code h =
     (if return_type h \<noteq> None then filter_fire_code h else hook_fire_code h)"

section \<open>The hook list and the code assembly\<close>

definition hooks :: "Hook list" where
  "hooks =
     [\<lparr>name = ''leech'', cb_args = ''card: Card'', return_type = None,
        legacy_hook = Some ''leech''\<rparr>,
      \<lparr>name = ''odue_invalid'', cb_args = [], return_type = None, legacy_hook = None\<rparr>,
      \<lparr>name = ''mod_schema'', cb_args = ''proceed: bool'', return_type = Some ''bool'',
        legacy_hook = None\<rparr>]"

text \<open>\<open>for hook in hooks: code += emit(hook)\<close>; the first error ends the loop.\<close>

fun code_loop :: "(Hook \<Rightarrow> error + string) \<Rightarrow> Hook list \<Rightarrow> string \<Rightarrow> error + string" where
  "code_loop emit [] code = Inr code"
| "code_loop emit (h # hs) code =
     (case emit h of
        Inl e \<Rightarrow> Inl e
      | Inr c \<Rightarrow> code_loop emit hs (code @ c))"

text \<open>
  The module body from the sort to the finished blob.  \<open>list.sort(key=...)\<close> is a stable
  sort, as \<open>sort_key\<close> is.
\<close>

definition gen_code :: "Hook list \<Rightarrow> error + string" where
  "gen_code hs0 =
     (let hs = sort_key name hs0 in
      case code_loop list_code hs [] of
        Inl e \<Rightarrow> Inl e
      | Inr code \<Rightarrow> code_loop fire_code hs (code @ [nl, nl]))"

section \<open>The splice\<close>

definition marker :: string where
  "marker = ''# @@AUTOGEN@@''"

text \<open>The first occurrence of \<open>pat\<close> in a text: what is before it and what is after it.\<close>

fun find_sub :: "string \<Rightarrow> string \<Rightarrow> (string \<times> string) option" where
  "find_sub pat [] = (if pat = [] then Some ([], []) else None)"
| "find_sub pat (c # cs) =
     (if take (length pat) (c # cs) = pat then Some ([], drop (length pat) (c # cs))
      else (case find_sub pat cs of
              None \<Rightarrow> None
            | Some (b, a) \<Rightarrow> Some (c # b, a)))"

text \<open>
  \<open>re.sub("(?s)# @@AUTOGEN@@.*?# @@AUTOGEN@@\n", repl, s)\<close> once the replacement is
  compiled to a function \<open>f\<close> of the matched text.  The leftmost match starts at the
  first marker and, \<open>.*?\<close> being lazy and matching newlines, ends with the first marker
  followed by a newline after it; the search goes on behind the match.  When no such
  end exists, no later start can match either, and the rest is kept.
\<close>

function re_sub :: "(string \<Rightarrow> string) \<Rightarrow> string \<Rightarrow> string" where
  "re_sub f s =
     (case find_sub marker s of
        None \<Rightarrow> s
      | Some (pre, rest) \<Rightarrow>
          (case find_sub (marker @ [nl]) rest of
             None \<Rightarrow> s
           | Some (mid, post) \<Rightarrow>
               pre @ f (marker @ mid @ marker @ [nl]) @ re_sub f post))"
  by pat_completeness auto
termination
proof (relation "measure (\<lambda>(f, s). length s)")
  show "wf (measure (\<lambda>(f, s). length s))" by simp
next
  fix f :: "string \<Rightarrow> string" and s x2 x y x2a xa ya
  assume found: "find_sub marker s = Some x2" "(x, y) = x2"
    "find_sub (marker @ [nl]) y = Some x2a" "(xa, ya) = x2a"
  have len: "find_sub pat t = Some (b, a) \<Longrightarrow> length a + length pat \<le> length t"
    for pat t b a
  proof (induction t arbitrary: b)
    case Nil
    then show ?case by (simp split: if_splits)
  next
    case (Cons c cs)
    show ?case
    proof (cases "take (length pat) (c # cs) = pat")
      case True
      then have "length (take (length pat) (c # cs)) = length pat"
        by simp
      then have "length pat \<le> length (c # cs)"
        unfolding length_take by linarith
      with True Cons.prems show ?thesis by auto
    next
      case False
      with Cons.prems obtain b' where "find_sub pat cs = Some (b', a)"
        by (auto split: option.splits)
      with Cons.IH show ?thesis by fastforce
    qed
  qed
  from found have "length y + length marker \<le> length s"
    and "length ya + length (marker @ [nl]) \<le> length y"
    by (auto dest: len)
  then show "((f, ya), (f, s)) \<in> measure (\<lambda>(f, s). length s)" by simp
qed

declare re_sub.simps [simp del]

text \<open>The replacement template of the source, an f-string around the blob.\<close>

definition template :: "string \<Rightarrow> string" where
  "template code = marker @ [nl, nl] @ code @ marker @ [nl]"

text \<open>
  The splice of a blob into a text.  \<open>re.sub\<close> first compiles the replacement
  template, where a backslash starts an escape or a group reference; that is code of
  Python's \<open>re\<close> module, taken here as the parameter \<open>compile_repl\<close>: an error,
  or the function from the matched text to its replacement.
\<close>

definition splice_text ::
  "(string \<Rightarrow> error + (string \<Rightarrow> string)) \<Rightarrow> string \<Rightarrow> string \<Rightarrow> error + string" where
  "splice_text compile_repl code orig =
     (case compile_repl (template code) of
        Inl e \<Rightarrow> Inl e
      | Inr f \<Rightarrow> Inr (re_sub f orig))"

text \<open>
  What the splice relies on from \<open>re\<close>: a template without a backslash is a literal
  replacement.
\<close>

definition literal_repl :: "(string \<Rightarrow> error + (string \<Rightarrow> string)) \<Rightarrow> bool" where
  "literal_repl compile_repl =
     (\<forall>t. backslash \<notin> set t \<longrightarrow> compile_repl t = Inr (\<lambda>m. t))"

text \<open>The module body from the sort to the text that is written.\<close>

definition new_text ::
  "(string \<Rightarrow> error + (string \<Rightarrow> string)) \<Rightarrow> Hook list \<Rightarrow> string \<Rightarrow> error + string" where
  "new_text compile_repl hs orig =
     (case gen_code hs of
        Inl e \<Rightarrow> Inl e
      | Inr code \<Rightarrow> splice_text compile_repl code orig)"

text \<open>
  The target file is opened in text mode: on reading, every line ending, \<^verbatim>\<open>\r\n\<close> or
  \<^verbatim>\<open>\r\<close> alone, becomes \<^verbatim>\<open>\n\<close>.  The file content is taken as its text, read and
  written in one encoding.
\<close>

definition carriage_return :: char where
  "carriage_return = CHR 0x0D"

fun read_text :: "string \<Rightarrow> string" where
  "read_text [] = []"
| "read_text [c] = (if c = carriage_return then [nl] else [c])"
| "read_text (c # d # ds) =
     (if c = carriage_return
      then (if d = nl then nl # read_text ds else nl # read_text (d # ds))
      else c # read_text (d # ds))"

text \<open>
  A run on a target file with content \<open>file\<close>: the error raised, if any, and the
  content of the file afterwards.  The blob is generated before the file is opened;
  the file is written, in binary mode, only when nothing was raised.
\<close>

definition main ::
  "(string \<Rightarrow> error + (string \<Rightarrow> string)) \<Rightarrow> Hook list \<Rightarrow> string \<Rightarrow> error option \<times> string" where
  "main compile_repl hs file =
     (case new_text compile_repl hs (read_text file) of
        Inl e \<Rightarrow> (Some e, file)
      | Inr new \<Rightarrow> (None, new))"

section \<open>The emitted dispatch functions\<close>









section \<open>The marker pair, as the specification words it\<close>

text \<open>A text contains the sentinel marker pair: the marker occurs, and occurs again after it.\<close>

definition spec_has_marker_pair :: "string \<Rightarrow> bool" where
  "spec_has_marker_pair s =
     (case find_sub marker s of
        None \<Rightarrow> False
      | Some (pre, rest) \<Rightarrow> find_sub marker rest \<noteq> None)"

section \<open>The signature grammar, as the specification words it\<close>

text \<open>
  The specification describes \<open>callbackArgs\<close> as comma-separated segments, each a
  name and a type expression separated by a colon, empty segments being skipped.
  These definitions follow that wording; the theorems compare them with the code.
\<close>

definition spec_segments :: "Hook \<Rightarrow> string list" where
  "spec_segments h = filter (\<lambda>a. a \<noteq> []) (py_split CHR '','' (cb_args h))"

definition spec_well_formed :: "Hook \<Rightarrow> bool" where
  "spec_well_formed h = (\<forall>a \<in> set (spec_segments h). count_list a CHR '':'' = 1)"

definition spec_arg_name :: "string \<Rightarrow> string" where
  "spec_arg_name a = py_strip (takeWhile (\<lambda>c. c \<noteq> CHR '':'') a)"

definition spec_arg_type :: "string \<Rightarrow> string" where
  "spec_arg_type a = py_strip (drop 1 (dropWhile (\<lambda>c. c \<noteq> CHR '':'') a))"


text \<open>A list of texts joined with a comma and a space between neighbours.\<close>

fun spec_comma_join :: "string list \<Rightarrow> string" where
  "spec_comma_join [] = []"
| "spec_comma_join (x # xs) = x @ concat (map (\<lambda>y. '', '' @ y) xs)"

section \<open>The filter chain, as the specification words it\<close>


section \<open>Signature parsing\<close>

lemma py_split_length: "length (py_split sep s) = Suc (count_list s sep)"
  by (induction s) (auto split: list.splits)

lemma py_split_no_sep: "count_list s sep = 0 \<Longrightarrow> py_split sep s = [s]"
  by (induction s) (auto split: list.splits if_splits)

lemma py_split_one_sep:
  "count_list s sep = 1 \<Longrightarrow>
   py_split sep s = [takeWhile (\<lambda>c. c \<noteq> sep) s, drop 1 (dropWhile (\<lambda>c. c \<noteq> sep) s)]"
  by (induction s) (auto split: list.splits if_splits simp: py_split_no_sep)

lemma unpack2_cases: "unpack2 xs = Inl ValueError \<or> (\<exists>a b. xs = [a, b] \<and> unpack2 xs = Inr (a, b))"
  by (cases xs rule: unpack2.cases) auto

lemma callable_loop_ok:
  "\<forall>a \<in> set segs. a \<noteq> [] \<longrightarrow> count_list a CHR '':'' = 1 \<Longrightarrow>
   callable_loop segs acc = Inr (acc @ map spec_arg_type (filter (\<lambda>a. a \<noteq> []) segs))"
  by (induction segs arbitrary: acc) (auto simp: py_split_one_sep spec_arg_type_def)

lemma arg_names_loop_ok:
  "\<forall>a \<in> set segs. a \<noteq> [] \<longrightarrow> count_list a CHR '':'' = 1 \<Longrightarrow>
   arg_names_loop segs acc = Inr (acc @ map spec_arg_name (filter (\<lambda>a. a \<noteq> []) segs))"
  by (induction segs arbitrary: acc) (auto simp: py_split_one_sep spec_arg_name_def)

lemma callable_loop_bad:
  "\<exists>a \<in> set segs. a \<noteq> [] \<and> count_list a CHR '':'' \<noteq> 1 \<Longrightarrow>
   callable_loop segs acc = Inl ValueError"
proof (induction segs arbitrary: acc)
  case Nil
  then show ?case by simp
next
  case (Cons s segs)
  show ?case
  proof (cases "s \<noteq> [] \<and> count_list s CHR '':'' \<noteq> 1")
    case True
    then have "length (py_split CHR '':'' s) \<noteq> 2" by (simp add: py_split_length)
    then have "unpack2 (py_split CHR '':'' s) = Inl ValueError"
      using unpack2_cases [of "py_split CHR '':'' s"] by auto
    with True show ?thesis by simp
  next
    case False
    with Cons.prems have "\<exists>a \<in> set segs. a \<noteq> [] \<and> count_list a CHR '':'' \<noteq> 1" by auto
    then have "\<And>acc. callable_loop segs acc = Inl ValueError" by (rule Cons.IH)
    then show ?thesis
      using unpack2_cases [of "py_split CHR '':'' s"] by (auto split: sum.splits)
  qed
qed

lemma arg_names_loop_bad:
  "\<exists>a \<in> set segs. a \<noteq> [] \<and> count_list a CHR '':'' \<noteq> 1 \<Longrightarrow>
   arg_names_loop segs acc = Inl ValueError"
proof (induction segs arbitrary: acc)
  case Nil
  then show ?case by simp
next
  case (Cons s segs)
  show ?case
  proof (cases "s \<noteq> [] \<and> count_list s CHR '':'' \<noteq> 1")
    case True
    then have "length (py_split CHR '':'' s) \<noteq> 2" by (simp add: py_split_length)
    then have "unpack2 (py_split CHR '':'' s) = Inl ValueError"
      using unpack2_cases [of "py_split CHR '':'' s"] by auto
    with True show ?thesis by simp
  next
    case False
    with Cons.prems have "\<exists>a \<in> set segs. a \<noteq> [] \<and> count_list a CHR '':'' \<noteq> 1" by auto
    then have "\<And>acc. arg_names_loop segs acc = Inl ValueError" by (rule Cons.IH)
    then show ?thesis
      using unpack2_cases [of "py_split CHR '':'' s"] by (auto split: sum.splits)
  qed
qed

lemma arg_names_wf: "spec_well_formed h \<Longrightarrow> arg_names h = Inr (map spec_arg_name (spec_segments h))"
  unfolding arg_names_def spec_well_formed_def spec_segments_def
  using arg_names_loop_ok [of "py_split CHR '','' (cb_args h)" "[]"] by simp

lemma arg_names_not_wf: "\<not> spec_well_formed h \<Longrightarrow> arg_names h = Inl ValueError"
  unfolding arg_names_def spec_well_formed_def spec_segments_def
  using arg_names_loop_bad [of "py_split CHR '','' (cb_args h)" "[]"] by auto

lemma callable_wf:
  "spec_well_formed h \<Longrightarrow>
   callable h = Inr (''Callable[['' @ py_join '', '' (map spec_arg_type (spec_segments h)) @ ''], '' @
                     or_None (return_type h) @ '']'')"
  unfolding callable_def spec_well_formed_def spec_segments_def
  using callable_loop_ok [of "py_split CHR '','' (cb_args h)" "[]"] by simp

lemma callable_not_wf: "\<not> spec_well_formed h \<Longrightarrow> callable h = Inl ValueError"
proof -
  assume "\<not> spec_well_formed h"
  then have "\<exists>a \<in> set (py_split CHR '','' (cb_args h)). a \<noteq> [] \<and> count_list a CHR '':'' \<noteq> 1"
    by (auto simp: spec_well_formed_def spec_segments_def)
  then have "callable_loop (py_split CHR '','' (cb_args h)) [] = Inl ValueError"
    by (rule callable_loop_bad)
  then show ?thesis by (simp add: callable_def)
qed

lemma code_loop_list_bad:
  "\<exists>h \<in> set hs. \<not> spec_well_formed h \<Longrightarrow> code_loop list_code hs acc = Inl ValueError"
proof (induction hs arbitrary: acc)
  case Nil
  then show ?case by simp
next
  case (Cons h hs)
  show ?case
  proof (cases "spec_well_formed h")
    case True
    with Cons.prems have "\<exists>h \<in> set hs. \<not> spec_well_formed h" by auto
    then have "\<And>acc. code_loop list_code hs acc = Inl ValueError" by (rule Cons.IH)
    moreover from True obtain c where "list_code h = Inr c"
      by (auto simp: list_code_def callable_wf)
    ultimately show ?thesis by simp
  next
    case False
    then show ?thesis by (simp add: list_code_def callable_not_wf)
  qed
qed

lemma gen_code_bad:
  assumes "h \<in> set hs" and "\<not> spec_well_formed h"
  shows "gen_code hs = Inl ValueError"
proof -
  from assms have "\<exists>h \<in> set (sort_key name hs). \<not> spec_well_formed h" by auto
  then have "code_loop list_code (sort_key name hs) [] = Inl ValueError"
    by (rule code_loop_list_bad)
  then show ?thesis by (simp add: gen_code_def)
qed

lemma main_bad:
  assumes "h \<in> set hs" and "\<not> spec_well_formed h"
  shows "main compile_repl hs file = (Some ValueError, file)"
  using gen_code_bad [OF assms] by (simp add: main_def new_text_def)

section \<open>C8: the synthesized callable type\<close>

lemma py_join_comma: "py_join '', '' xs = spec_comma_join xs"
  by (induction "'', ''" xs rule: py_join.induct) simp_all

text \<open>
  C8.  For a declaration whose non-empty segments each hold exactly one colon and
  whose return type is not the empty string, the callable type is
  \<open>Callable[[T1, ..., Tn], R]\<close>: the \<open>Ti\<close> are the texts after the colons, in
  declaration order, trimmed and otherwise verbatim, with a comma and a space between
  neighbours; \<open>R\<close> is the return type, or the text None when the return type is
  absent.  The argument names are the trimmed texts before the colons.  The three
  examples of the claim hold as written, and two arguments with a return type give
  \<open>Callable[[int, str], bool]\<close>.  At a return type that is the empty string the code
  departs from this: \<open>callable\<close> writes None, while \<open>kind\<close> and the dispatch
  emitter take the return type as set.
\<close>

theorem callable_type_synthesis:
  "(spec_well_formed h \<and> return_type h \<noteq> Some [] \<longrightarrow>
      callable h =
        Inr (''Callable[['' @ spec_comma_join (map spec_arg_type (spec_segments h)) @ ''], '' @
             (case return_type h of None \<Rightarrow> ''None'' | Some r \<Rightarrow> r) @ '']'') \<and>
      arg_names h = Inr (map spec_arg_name (spec_segments h))) \<and>
   arg_names_loop (py_split CHR '','' ''a: int, b: str'') [] = Inr [''a'', ''b''] \<and>
   callable_loop (py_split CHR '','' ''a: int, b: str'') [] = Inr [''int'', ''str''] \<and>
   arg_names_loop (py_split CHR '','' []) [] = Inr [] \<and>
   callable_loop (py_split CHR '','' []) [] = Inr [] \<and>
   arg_names_loop (py_split CHR '','' ''a:int'') [] =
     arg_names_loop (py_split CHR '','' ''a: int'') [] \<and>
   callable_loop (py_split CHR '','' ''a:int'') [] =
     callable_loop (py_split CHR '','' ''a: int'') [] \<and>
   callable \<lparr>name = ''x'', cb_args = ''a: int, b: str'', return_type = Some ''bool'',
      legacy_hook = None\<rparr> = Inr ''Callable[[int, str], bool]'' \<and>
   callable \<lparr>name = ''x'', cb_args = '' a : A ,,b:B,c :  C '', return_type = None,
      legacy_hook = None\<rparr> = Inr ''Callable[[A, B, C], None]'' \<and>
   callable \<lparr>name = ''x'', cb_args = ''a: int'', return_type = Some [],
      legacy_hook = None\<rparr> = Inr ''Callable[[int], None]'' \<and>
   kind \<lparr>name = ''x'', cb_args = ''a: int'', return_type = Some [],
      legacy_hook = None\<rparr> = ''filter''"
proof -
  have "return_type h \<noteq> Some [] \<Longrightarrow> or_None (return_type h) =
        (case return_type h of None \<Rightarrow> ''None'' | Some r \<Rightarrow> r)"
    by (cases "return_type h") simp_all
  then have general: "spec_well_formed h \<and> return_type h \<noteq> Some [] \<longrightarrow>
      callable h =
        Inr (''Callable[['' @ spec_comma_join (map spec_arg_type (spec_segments h)) @ ''], '' @
             (case return_type h of None \<Rightarrow> ''None'' | Some r \<Rightarrow> r) @ '']'') \<and>
      arg_names h = Inr (map spec_arg_name (spec_segments h))"
    using callable_wf [of h] arg_names_wf [of h] by (simp add: py_join_comma)
  have e1: "arg_names_loop (py_split CHR '','' ''a: int, b: str'') [] = Inr [''a'', ''b'']"
    by code_simp
  have e2: "callable_loop (py_split CHR '','' ''a: int, b: str'') [] = Inr [''int'', ''str'']"
    by code_simp
  have e3: "arg_names_loop (py_split CHR '','' []) [] = Inr []" by simp
  have e4: "callable_loop (py_split CHR '','' []) [] = Inr []" by simp
  have e5: "arg_names_loop (py_split CHR '','' ''a:int'') [] =
     arg_names_loop (py_split CHR '','' ''a: int'') []" by code_simp
  have e6: "callable_loop (py_split CHR '','' ''a:int'') [] =
     callable_loop (py_split CHR '','' ''a: int'') []" by code_simp
  have e7: "callable \<lparr>name = ''x'', cb_args = ''a: int, b: str'', return_type = Some ''bool'',
      legacy_hook = None\<rparr> = Inr ''Callable[[int, str], bool]''" by code_simp
  have e8: "callable \<lparr>name = ''x'', cb_args = '' a : A ,,b:B,c :  C '', return_type = None,
      legacy_hook = None\<rparr> = Inr ''Callable[[A, B, C], None]''" by code_simp
  have e9: "callable \<lparr>name = ''x'', cb_args = ''a: int'', return_type = Some [],
      legacy_hook = None\<rparr> = Inr ''Callable[[int], None]''" by code_simp
  have e10: "kind \<lparr>name = ''x'', cb_args = ''a: int'', return_type = Some [],
      legacy_hook = None\<rparr> = ''filter''" by (simp add: kind_def)
  from general e1 e2 e3 e4 e5 e6 e7 e8 e9 e10 show ?thesis by blast
qed

text \<open>The theorem at a declaration of two arguments and a return type.\<close>

theorem callable_type_synthesis_witness:
  "spec_well_formed \<lparr>name = ''x'', cb_args = ''a: int, b: str'', return_type = Some ''bool'',
      legacy_hook = None\<rparr> \<and>
   spec_segments \<lparr>name = ''x'', cb_args = ''a: int, b: str'', return_type = Some ''bool'',
      legacy_hook = None\<rparr> = [''a: int'', '' b: str''] \<and>
   callable \<lparr>name = ''x'', cb_args = ''a: int, b: str'', return_type = Some ''bool'',
      legacy_hook = None\<rparr> =
     Inr (''Callable[['' @ spec_comma_join [''int'', ''str''] @ ''], '' @ ''bool'' @ '']'') \<and>
   arg_names \<lparr>name = ''x'', cb_args = ''a: int, b: str'', return_type = Some ''bool'',
      legacy_hook = None\<rparr> = Inr [''a'', ''b'']"
proof -
  let ?h = "\<lparr>name = ''x'', cb_args = ''a: int, b: str'', return_type = Some ''bool'',
      legacy_hook = None\<rparr>"
  have wf: "spec_well_formed ?h" by code_simp
  have rt: "return_type ?h \<noteq> Some []" by simp
  have sg: "spec_segments ?h = [''a: int'', '' b: str'']" by code_simp
  have ty: "map spec_arg_type (spec_segments ?h) = [''int'', ''str'']" by code_simp
  have nm: "map spec_arg_name (spec_segments ?h) = [''a'', ''b'']" by code_simp
  from callable_type_synthesis [of ?h] wf rt
  have "callable ?h =
        Inr (''Callable[['' @ spec_comma_join (map spec_arg_type (spec_segments ?h)) @ ''], '' @
             (case return_type ?h of None \<Rightarrow> ''None'' | Some r \<Rightarrow> r) @ '']'') \<and>
      arg_names ?h = Inr (map spec_arg_name (spec_segments ?h))" by blast
  with wf sg ty nm show ?thesis by simp
qed

section \<open>C9: malformed signatures\<close>

text \<open>
  C9 (amended).  Parsing raises ValueError exactly when some non-empty segment does not
  hold exactly one colon, and succeeds otherwise; a segment without a colon is one such
  segment.  A run over a declaration list with such a declaration raises ValueError and
  leaves the target file as it was.
\<close>

theorem malformed_signature:
  "(arg_names h = Inl ValueError \<longleftrightarrow> \<not> spec_well_formed h) \<and>
   (callable h = Inl ValueError \<longleftrightarrow> \<not> spec_well_formed h) \<and>
   ((\<exists>a \<in> set (spec_segments h). CHR '':'' \<notin> set a) \<longrightarrow>
      arg_names h = Inl ValueError \<and> callable h = Inl ValueError) \<and>
   (h \<in> set hs \<and> \<not> spec_well_formed h \<longrightarrow>
      main compile_repl hs file = (Some ValueError, file))"
proof -
  have a: "arg_names h = Inl ValueError \<longleftrightarrow> \<not> spec_well_formed h"
    using arg_names_wf [of h] arg_names_not_wf [of h] by auto
  have c: "callable h = Inl ValueError \<longleftrightarrow> \<not> spec_well_formed h"
    using callable_wf [of h] callable_not_wf [of h] by auto
  have n: "(\<exists>a \<in> set (spec_segments h). CHR '':'' \<notin> set a) \<longrightarrow> \<not> spec_well_formed h"
  proof
    assume "\<exists>a \<in> set (spec_segments h). CHR '':'' \<notin> set a"
    then obtain a where "a \<in> set (spec_segments h)" and "CHR '':'' \<notin> set a" by blast
    then have "a \<in> set (spec_segments h)" and "count_list a CHR '':'' \<noteq> 1"
      by (simp_all add: count_notin)
    then show "\<not> spec_well_formed h" unfolding spec_well_formed_def by blast
  qed
  have m: "h \<in> set hs \<and> \<not> spec_well_formed h \<longrightarrow>
      main compile_repl hs file = (Some ValueError, file)"
    using main_bad by blast
  from a c n m show ?thesis by blast
qed

text \<open>The theorem at a declaration whose second segment has no colon.\<close>

theorem malformed_signature_witness:
  "arg_names \<lparr>name = ''x'', cb_args = ''a: int, b'', return_type = None, legacy_hook = None\<rparr> =
     Inl ValueError \<and>
   main (\<lambda>t. Inr (\<lambda>m. t))
     [\<lparr>name = ''x'', cb_args = ''a: int, b'', return_type = None, legacy_hook = None\<rparr>] ''abc'' =
     (Some ValueError, ''abc'')"
proof -
  let ?h = "\<lparr>name = ''x'', cb_args = ''a: int, b'', return_type = None, legacy_hook = None\<rparr>"
  have seg: "\<exists>a \<in> set (spec_segments ?h). CHR '':'' \<notin> set a" by code_simp
  have "?h \<in> set [?h]" by simp
  with seg malformed_signature [of ?h "[?h]" "\<lambda>t. Inr (\<lambda>m. t)" "''abc''"]
  show ?thesis by blast
qed

text \<open>
  C9 as stated fails for a segment with two colons: no segment lacks a colon, and the
  unpacking of three parts raises all the same.
\<close>

theorem three_part_segment_counterexample:
  "py_split CHR '','' (cb_args \<lparr>name = ''x'', cb_args = ''a:b:c'', return_type = None,
      legacy_hook = None\<rparr>) = [''a:b:c''] \<and>
   CHR '':'' \<in> set ''a:b:c'' \<and>
   arg_names \<lparr>name = ''x'', cb_args = ''a:b:c'', return_type = None, legacy_hook = None\<rparr> =
     Inl ValueError"
  by (simp add: arg_names_def)

section \<open>C10: the first argument of a filter\<close>

lemma filter_fire_code_wf:
  assumes "spec_well_formed h" and "spec_segments h \<noteq> []"
  shows "\<exists>text. filter_fire_code h = Inr text"
proof -
  from assms(2) obtain a as where "spec_segments h = a # as" by (cases "spec_segments h") auto
  with arg_names_wf [OF assms(1)] show ?thesis by (simp add: filter_fire_code_def)
qed

lemma filter_fire_code_empty:
  assumes "spec_segments h = []"
  shows "filter_fire_code h = Inl IndexError"
proof -
  from assms have "spec_well_formed h" by (simp add: spec_well_formed_def)
  from arg_names_wf [OF this] assms show ?thesis by (simp add: filter_fire_code_def)
qed

lemma filter_fire_code_in_bounds:
  assumes "spec_segments h \<noteq> []"
  shows "filter_fire_code h \<noteq> Inl IndexError"
proof (cases "spec_well_formed h")
  case True
  with assms filter_fire_code_wf show ?thesis by fastforce
next
  case False
  then show ?thesis by (simp add: filter_fire_code_def arg_names_not_wf)
qed

lemma hook_fire_code_wf: "spec_well_formed h \<Longrightarrow> \<exists>text. hook_fire_code h = Inr text"
  by (simp add: hook_fire_code_def arg_names_wf)

lemma code_loop_list_ok:
  "\<forall>h \<in> set hs. spec_well_formed h \<Longrightarrow> \<exists>code. code_loop list_code hs acc = Inr code"
proof (induction hs arbitrary: acc)
  case Nil
  then show ?case by simp
next
  case (Cons h hs)
  then have "spec_well_formed h" by simp
  then obtain c where "list_code h = Inr c" by (auto simp: list_code_def callable_wf)
  moreover from Cons have "\<And>acc. \<exists>code. code_loop list_code hs acc = Inr code" by simp
  ultimately show ?case by simp
qed

lemma code_loop_fire_empty_filter:
  assumes "\<forall>h \<in> set hs. spec_well_formed h"
    and "\<exists>h \<in> set hs. return_type h \<noteq> None \<and> spec_segments h = []"
  shows "code_loop fire_code hs acc = Inl IndexError"
  using assms
proof (induction hs arbitrary: acc)
  case Nil
  then show ?case by simp
next
  case (Cons h hs)
  show ?case
  proof (cases "return_type h \<noteq> None \<and> spec_segments h = []")
    case True
    then show ?thesis by (simp add: fire_code_def filter_fire_code_empty)
  next
    case False
    with Cons.prems have rest: "\<exists>h \<in> set hs. return_type h \<noteq> None \<and> spec_segments h = []"
      and wfs: "\<forall>h \<in> set hs. spec_well_formed h" and wf: "spec_well_formed h" by auto
    from rest wfs have ih: "\<And>acc. code_loop fire_code hs acc = Inl IndexError"
      using Cons.IH by blast
    have "\<exists>c. fire_code h = Inr c"
    proof (cases "return_type h \<noteq> None")
      case True
      with False have "spec_segments h \<noteq> []" by simp
      with wf have "\<exists>c. filter_fire_code h = Inr c" by (rule filter_fire_code_wf)
      with True show ?thesis by (simp add: fire_code_def)
    next
      case False
      with wf hook_fire_code_wf [of h] show ?thesis by (simp add: fire_code_def)
    qed
    with ih show ?thesis by auto
  qed
qed

lemma main_empty_filter:
  assumes "\<forall>h \<in> set hs. spec_well_formed h"
    and "h \<in> set hs" and "return_type h \<noteq> None" and "spec_segments h = []"
  shows "main compile_repl hs file = (Some IndexError, file)"
proof -
  let ?hs = "sort_key name hs"
  from assms(1) have wfs: "\<forall>h \<in> set ?hs. spec_well_formed h" by simp
  then obtain code where c: "code_loop list_code ?hs [] = Inr code"
    using code_loop_list_ok by blast
  from assms have "\<exists>h \<in> set ?hs. return_type h \<noteq> None \<and> spec_segments h = []" by auto
  with wfs have "code_loop fire_code ?hs (code @ [nl, nl]) = Inl IndexError"
    by (rule code_loop_fire_empty_filter)
  with c show ?thesis by (simp add: main_def new_text_def gen_code_def)
qed

text \<open>
  C10 (amended).  For a filter declaration (return type set): with at least one
  non-empty segment in \<open>cb_args\<close> the emitter never fails on the index of the first
  argument name; when moreover the signature is well formed, every non-empty segment
  holding exactly one colon, the list of argument names has a first element and the
  dispatch function is generated.  With no argument (in particular with empty
  \<open>cb_args\<close>) the emitter raises IndexError, and a run over otherwise well-formed
  declarations aborts with it, the file untouched.
\<close>

theorem filter_first_argument:
  assumes "return_type h \<noteq> None"
  shows "(spec_segments h \<noteq> [] \<longrightarrow> fire_code h \<noteq> Inl IndexError) \<and>
         (spec_well_formed h \<and> spec_segments h \<noteq> [] \<longrightarrow>
            (\<exists>first rest text. arg_names h = Inr (first # rest) \<and> fire_code h = Inr text)) \<and>
         (spec_segments h = [] \<longrightarrow> fire_code h = Inl IndexError) \<and>
         (cb_args h = [] \<longrightarrow> fire_code h = Inl IndexError) \<and>
         (spec_segments h = [] \<and> h \<in> set hs \<and> (\<forall>g \<in> set hs. spec_well_formed g) \<longrightarrow>
            main compile_repl hs file = (Some IndexError, file))"
proof -
  from assms have fc: "fire_code h = filter_fire_code h" by (simp add: fire_code_def)
  have a: "spec_segments h \<noteq> [] \<longrightarrow> fire_code h \<noteq> Inl IndexError"
    using filter_fire_code_in_bounds fc by simp
  have b: "spec_well_formed h \<and> spec_segments h \<noteq> [] \<longrightarrow>
            (\<exists>first rest text. arg_names h = Inr (first # rest) \<and> fire_code h = Inr text)"
  proof
    assume h: "spec_well_formed h \<and> spec_segments h \<noteq> []"
    then obtain a as where "spec_segments h = a # as" by (cases "spec_segments h") auto
    with h have "arg_names h = Inr (spec_arg_name a # map spec_arg_name as)"
      by (simp add: arg_names_wf)
    moreover from h obtain out where "fire_code h = Inr out"
      using filter_fire_code_wf fc by fastforce
    ultimately show "\<exists>first rest text. arg_names h = Inr (first # rest) \<and> fire_code h = Inr text"
      by blast
  qed
  have c: "spec_segments h = [] \<longrightarrow> fire_code h = Inl IndexError"
    using filter_fire_code_empty fc by simp
  have "cb_args h = [] \<longrightarrow> spec_segments h = []" by (simp add: spec_segments_def)
  with c have d: "cb_args h = [] \<longrightarrow> fire_code h = Inl IndexError" by blast
  have e: "spec_segments h = [] \<and> h \<in> set hs \<and> (\<forall>g \<in> set hs. spec_well_formed g) \<longrightarrow>
            main compile_repl hs file = (Some IndexError, file)"
    using main_empty_filter [of hs h] assms by blast
  from a b c d e show ?thesis by blast
qed

text \<open>The theorem at the mod_schema filter, and at a filter without arguments.\<close>

theorem filter_first_argument_witness:
  "return_type \<lparr>name = ''mod_schema'', cb_args = ''proceed: bool'', return_type = Some ''bool'',
      legacy_hook = None\<rparr> \<noteq> None \<and>
   spec_well_formed \<lparr>name = ''mod_schema'', cb_args = ''proceed: bool'',
      return_type = Some ''bool'', legacy_hook = None\<rparr> \<and>
   spec_segments \<lparr>name = ''mod_schema'', cb_args = ''proceed: bool'',
      return_type = Some ''bool'', legacy_hook = None\<rparr> \<noteq> [] \<and>
   fire_code \<lparr>name = ''mod_schema'', cb_args = ''proceed: bool'', return_type = Some ''bool'',
      legacy_hook = None\<rparr> \<noteq> Inl IndexError \<and>
   fire_code \<lparr>name = ''f'', cb_args = [], return_type = Some ''bool'',
      legacy_hook = None\<rparr> = Inl IndexError"
proof -
  let ?h = "\<lparr>name = ''mod_schema'', cb_args = ''proceed: bool'', return_type = Some ''bool'',
      legacy_hook = None\<rparr>"
  let ?g = "\<lparr>name = ''f'', cb_args = [], return_type = Some ''bool'', legacy_hook = None\<rparr>"
  have r: "return_type ?h \<noteq> None" by simp
  have wf: "spec_well_formed ?h" by code_simp
  have ne: "spec_segments ?h \<noteq> []" by code_simp
  have rg: "return_type ?g \<noteq> None" and cg: "cb_args ?g = []" by simp_all
  from filter_first_argument [OF r, of "[]" "\<lambda>t. Inr (\<lambda>m. t)" "[]"] ne
  have 1: "fire_code ?h \<noteq> Inl IndexError" by blast
  from filter_first_argument [OF rg, of "[]" "\<lambda>t. Inr (\<lambda>m. t)" "[]"] cg
  have 2: "fire_code ?g = Inl IndexError" by blast
  from r wf ne 1 2 show ?thesis by blast
qed

text \<open>
  C10 as stated fails for a filter with one well-formed argument and one segment
  without a colon: generation is not total there, the parse raises ValueError.
\<close>

theorem one_bad_segment_counterexample:
  "return_type \<lparr>name = ''f'', cb_args = ''a: int, b'', return_type = Some ''bool'',
      legacy_hook = None\<rparr> = Some ''bool'' \<and>
   spec_segments \<lparr>name = ''f'', cb_args = ''a: int, b'', return_type = Some ''bool'',
      legacy_hook = None\<rparr> = [''a: int'', '' b''] \<and>
   count_list ''a: int'' CHR '':'' = 1 \<and>
   fire_code \<lparr>name = ''f'', cb_args = ''a: int, b'', return_type = Some ''bool'',
      legacy_hook = None\<rparr> = Inl ValueError"
  by code_simp

section \<open>C6: the order of the declarations\<close>

lemma filter_same_name:
  assumes inj: "\<forall>a \<in> set hs. \<forall>b \<in> set hs. name a = name b \<longrightarrow> a = b" and k: "k \<in> set hs"
  shows "filter (\<lambda>x. name k = name x) hs = replicate (count (mset hs) k) k"
proof -
  from inj k have "filter (\<lambda>x. name k = name x) hs = filter (\<lambda>x. x = k) hs"
    by (intro filter_cong) auto
  also have "\<dots> = replicate (count (mset hs) k) k"
    by (induction hs) auto
  finally show ?thesis .
qed

lemma sort_key_name_permutation:
  assumes perm: "mset hs1 = mset hs2"
    and inj: "\<forall>a \<in> set hs1. \<forall>b \<in> set hs1. name a = name b \<longrightarrow> a = b"
  shows "sort_key name hs1 = sort_key name hs2"
proof (rule properties_for_sort_key)
  show "mset (sort_key name hs2) = mset hs1" using perm by simp
  show "sorted (map name (sort_key name hs2))" by simp
  fix k assume "k \<in> set (sort_key name hs2)"
  then have k2: "k \<in> set hs2" by simp
  from perm have sets: "set hs1 = set hs2" by (rule mset_eq_setD)
  with k2 have k1: "k \<in> set hs1" by simp
  from inj sets have inj2: "\<forall>a \<in> set hs2. \<forall>b \<in> set hs2. name a = name b \<longrightarrow> a = b" by simp
  have "filter (\<lambda>x. name k = name x) (sort_key name hs2) = filter (\<lambda>x. name k = name x) hs2"
    using sort_key_stable [of name "name k" hs2] by (simp add: eq_commute)
  also have "\<dots> = replicate (count (mset hs2) k) k" using inj2 k2 by (rule filter_same_name)
  also have "\<dots> = replicate (count (mset hs1) k) k" using perm by simp
  also have "\<dots> = filter (\<lambda>x. name k = name x) hs1"
    using inj k1 by (rule filter_same_name [symmetric])
  finally show "filter (\<lambda>x. name k = name x) (sort_key name hs2) =
    filter (\<lambda>x. name k = name x) hs1" .
qed

text \<open>
  C6 (amended).  For two declaration lists that are permutations of each other, and in
  which declarations of the same name are equal (in particular when the names are
  unique), the sorted lists are the same, the generated blob is the same and a run
  has the same outcome: the declarations are stably sorted by ascending name before
  emission.
\<close>

theorem generation_deterministic:
  assumes "mset hs1 = mset hs2"
    and "\<forall>a \<in> set hs1. \<forall>b \<in> set hs1. name a = name b \<longrightarrow> a = b"
  shows "gen_code hs1 = gen_code hs2 \<and>
         sort_key name hs1 = sort_key name hs2 \<and>
         sorted (map name (sort_key name hs1)) \<and>
         main compile_repl hs1 file = main compile_repl hs2 file"
proof -
  from assms have s: "sort_key name hs1 = sort_key name hs2" by (rule sort_key_name_permutation)
  then have g: "gen_code hs1 = gen_code hs2" by (simp add: gen_code_def)
  then have "main compile_repl hs1 file = main compile_repl hs2 file"
    by (simp add: main_def new_text_def)
  with s g show ?thesis by simp
qed

text \<open>The theorem at the hook list of the source and its reversal.\<close>

theorem generation_deterministic_witness:
  "mset hooks = mset (rev hooks) \<and> gen_code hooks = gen_code (rev hooks)"
proof -
  have p: "mset hooks = mset (rev hooks)" by simp
  have "\<forall>a \<in> set hooks. \<forall>b \<in> set hooks. name a = name b \<longrightarrow> a = b"
    by (simp add: hooks_def)
  with p generation_deterministic [of hooks "rev hooks" "\<lambda>t. Inr (\<lambda>m. t)" "[]"]
  show ?thesis by blast
qed

text \<open>
  C6 as stated fails for two different declarations of one name: the sort is stable
  and keeps them in their input order, so the two orders give two blobs.
\<close>

theorem same_name_order_counterexample:
  "mset [\<lparr>name = ''a'', cb_args = ''x: int'', return_type = None, legacy_hook = None\<rparr>,
         \<lparr>name = ''a'', cb_args = ''y: str'', return_type = None, legacy_hook = None\<rparr>] =
   mset [\<lparr>name = ''a'', cb_args = ''y: str'', return_type = None, legacy_hook = None\<rparr>,
         \<lparr>name = ''a'', cb_args = ''x: int'', return_type = None, legacy_hook = None\<rparr>] \<and>
   gen_code [\<lparr>name = ''a'', cb_args = ''x: int'', return_type = None, legacy_hook = None\<rparr>,
             \<lparr>name = ''a'', cb_args = ''y: str'', return_type = None, legacy_hook = None\<rparr>] \<noteq>
   gen_code [\<lparr>name = ''a'', cb_args = ''y: str'', return_type = None, legacy_hook = None\<rparr>,
             \<lparr>name = ''a'', cb_args = ''x: int'', return_type = None, legacy_hook = None\<rparr>]"
proof -
  let ?a = "\<lparr>name = ''a'', cb_args = ''x: int'', return_type = None, legacy_hook = None\<rparr>"
  let ?b = "\<lparr>name = ''a'', cb_args = ''y: str'', return_type = None, legacy_hook = None\<rparr>"
  have "mset [?a, ?b] = mset [?b, ?a]" by (simp add: add.commute)
  moreover have "gen_code [?a, ?b] \<noteq> gen_code [?b, ?a]" by code_simp
  ultimately show ?thesis by simp
qed

section \<open>Searching and substituting\<close>

lemma find_sub_Some: "find_sub pat s = Some (b, a) \<Longrightarrow> s = b @ pat @ a"
proof (induction s arbitrary: b)
  case Nil
  then show ?case by (simp split: if_splits)
next
  case (Cons c cs)
  show ?case
  proof (cases "take (length pat) (c # cs) = pat")
    case True
    with Cons.prems have "b = []" and "a = drop (length pat) (c # cs)" by simp_all
    moreover from True have "c # cs = pat @ drop (length pat) (c # cs)"
      by (metis append_take_drop_id)
    ultimately show ?thesis by simp
  next
    case False
    with Cons.prems obtain b' where "find_sub pat cs = Some (b', a)" and "b = c # b'"
      by (auto split: option.splits)
    with Cons.IH show ?thesis by simp
  qed
qed

lemma take_append_long: "n \<le> length xs \<Longrightarrow> take n (xs @ ys) = take n xs"
  by simp

lemma find_sub_at_front: "find_sub pat (pat @ x) = Some ([], x)"
proof (cases "pat @ x")
  case Nil
  then show ?thesis by simp
next
  case (Cons c cs)
  have "take (length pat) (pat @ x) = pat" and "drop (length pat) (pat @ x) = x" by simp_all
  with Cons have "take (length pat) (c # cs) = pat" and "drop (length pat) (c # cs) = x"
    by simp_all
  then have "find_sub pat (c # cs) = Some ([], x)" by simp
  with Cons show ?thesis by simp
qed

text \<open>The first occurrence stays the first when the text behind it changes.\<close>

lemma find_sub_first:
  "find_sub pat s = Some (b, a) \<Longrightarrow> find_sub pat (b @ pat @ x) = Some (b, x)"
proof (induction s arbitrary: b)
  case Nil
  then have "pat = []" and "b = []" by (simp_all split: if_splits)
  then show ?case using find_sub_at_front [of "[]" x] by simp
next
  case (Cons c cs)
  show ?case
  proof (cases "take (length pat) (c # cs) = pat")
    case True
    with Cons.prems have "b = []" by simp
    then show ?thesis by (simp add: find_sub_at_front)
  next
    case False
    with Cons.prems obtain b' where f: "find_sub pat cs = Some (b', a)" and b: "b = c # b'"
      by (auto split: option.splits)
    from f have cs: "cs = b' @ pat @ a" by (rule find_sub_Some)
    from f have ih: "find_sub pat (b' @ pat @ x) = Some (b', x)" by (rule Cons.IH)
    have "length pat \<le> length (c # b' @ pat)" by simp
    then have "take (length pat) ((c # b' @ pat) @ x) = take (length pat) ((c # b' @ pat) @ a)"
      by (simp only: take_append_long)
    then have "take (length pat) (c # b' @ pat @ x) = take (length pat) (c # b' @ pat @ a)"
      by simp
    with False cs have "take (length pat) (c # b' @ pat @ x) \<noteq> pat" by simp
    with ih b show ?thesis by simp
  qed
qed

text \<open>A pattern whose first character does not come back cannot overlap itself.\<close>

lemma find_sub_no_overlap:
  assumes "h \<notin> set t" and "find_sub (h # t) u = None"
  shows "find_sub (h # t) (u @ (h # t) @ x) = Some (u, x)"
  using assms(2)
proof (induction u)
  case Nil
  show ?case using find_sub_at_front [of "h # t" x] by simp
next
  case (Cons c u)
  from Cons.prems have nt: "take (length (h # t)) (c # u) \<noteq> h # t"
    and none: "find_sub (h # t) u = None"
    by (auto split: if_splits option.splits)
  from none have ih: "find_sub (h # t) (u @ (h # t) @ x) = Some (u, x)" by (rule Cons.IH)
  have "take (length (h # t)) (c # u @ (h # t) @ x) \<noteq> h # t"
  proof (cases "length (h # t) \<le> length (c # u)")
    case True
    then have "take (length (h # t)) (c # u @ (h # t) @ x) = take (length (h # t)) (c # u)"
      by simp
    with nt show ?thesis by simp
  next
    case False
    then have lt: "length u < length t" by simp
    show ?thesis
    proof
      assume eq: "take (length (h # t)) (c # u @ (h # t) @ x) = h # t"
      then have "take (length t) (u @ (h # t) @ x) = t" by simp
      then have "take (length t) (u @ (h # t) @ x) ! length u = t ! length u" by (rule arg_cong)
      moreover from lt have "take (length t) (u @ (h # t) @ x) ! length u =
        (u @ (h # t) @ x) ! length u" by (rule nth_take)
      moreover have "(u @ (h # t) @ x) ! length u = h" by simp
      ultimately have "h = t ! length u" by simp
      with lt have "h \<in> set t" by simp
      with assms(1) show False by simp
    qed
  qed
  with ih show ?case by simp
qed

lemma find_sub_prefix_pattern:
  "find_sub (p @ q) s = Some (b, a) \<Longrightarrow> find_sub p s \<noteq> None"
proof (induction s arbitrary: b)
  case Nil
  then show ?case by (simp split: if_splits)
next
  case (Cons c cs)
  show ?case
  proof (cases "take (length (p @ q)) (c # cs) = p @ q")
    case True
    then have "take (length p) (take (length (p @ q)) (c # cs)) = take (length p) (p @ q)"
      by simp
    then have "take (length p) (c # cs) = p" by (simp add: min_def)
    then show ?thesis by simp
  next
    case False
    with Cons.prems obtain b' where "find_sub (p @ q) cs = Some (b', a)"
      by (auto split: option.splits)
    then have "find_sub p cs \<noteq> None" by (rule Cons.IH)
    then show ?thesis by (auto split: option.splits)
  qed
qed

lemma find_sub_append_None:
  assumes "find_sub p s = None"
  shows "find_sub (p @ q) s = None"
proof (cases "find_sub (p @ q) s")
  case None
  then show ?thesis .
next
  case (Some r)
  then obtain b a where "find_sub (p @ q) s = Some (b, a)" by (cases r) simp
  then have "find_sub p s \<noteq> None" by (rule find_sub_prefix_pattern)
  with assms show ?thesis by simp
qed

lemma re_sub_no_pair: "\<not> spec_has_marker_pair s \<Longrightarrow> re_sub f s = s"
proof (cases "find_sub marker s")
  case None
  then show ?thesis by (subst re_sub.simps) simp
next
  case (Some r)
  assume np: "\<not> spec_has_marker_pair s"
  obtain pre rest where r: "r = (pre, rest)" by (cases r)
  with Some np have "find_sub marker rest = None"
    by (cases "find_sub marker rest") (simp_all add: spec_has_marker_pair_def)
  then have "find_sub (marker @ [nl]) rest = None" by (rule find_sub_append_None)
  with Some r show ?thesis by (subst re_sub.simps) simp
qed

lemma find_sub_no_overlap_pat:
  assumes "pat = h # t" and "h \<notin> set t" and "find_sub pat u = None"
  shows "find_sub pat (u @ pat @ x) = Some (u, x)"
  using find_sub_no_overlap [of h t u x] assms by simp

lemma find_sub_marker:
  assumes "find_sub marker u = None"
  shows "find_sub marker (u @ marker @ x) = Some (u, x)"
proof (rule find_sub_no_overlap_pat)
  show "marker = CHR ''#'' # '' @@AUTOGEN@@''" by (simp add: marker_def)
  show "CHR ''#'' \<notin> set '' @@AUTOGEN@@''" by simp
  show "find_sub marker u = None" by (rule assms)
qed

lemma find_sub_marker_nl:
  assumes "find_sub (marker @ [nl]) u = None"
  shows "find_sub (marker @ [nl]) (u @ marker @ [nl] @ x) = Some (u, x)"
proof -
  have "find_sub (marker @ [nl]) (u @ (marker @ [nl]) @ x) = Some (u, x)"
  proof (rule find_sub_no_overlap_pat)
    show "marker @ [nl] = CHR ''#'' # ('' @@AUTOGEN@@'' @ [nl])" by (simp add: marker_def)
    show "CHR ''#'' \<notin> set ('' @@AUTOGEN@@'' @ [nl])" by (simp add: nl_def)
    show "find_sub (marker @ [nl]) u = None" by (rule assms)
  qed
  then show ?thesis by simp
qed

lemma re_sub_region:
  assumes "find_sub marker pre = None" and "find_sub (marker @ [nl]) mid = None"
  shows "re_sub f (pre @ marker @ mid @ marker @ [nl] @ post) =
         pre @ f (marker @ mid @ marker @ [nl]) @ re_sub f post"
proof -
  have 1: "find_sub marker (pre @ marker @ mid @ marker @ [nl] @ post) =
           Some (pre, mid @ marker @ [nl] @ post)"
    using assms(1) by (rule find_sub_marker)
  have 2: "find_sub (marker @ [nl]) (mid @ marker @ [nl] @ post) = Some (mid, post)"
    using assms(2) by (rule find_sub_marker_nl)
  show ?thesis
    by (subst re_sub.simps) (simp only: 1 2 option.case prod.case)
qed

lemma template_no_backslash: "backslash \<notin> set code \<Longrightarrow> backslash \<notin> set (template code)"
  by (simp add: template_def marker_def backslash_def nl_def)

lemma splice_literal:
  assumes "literal_repl compile_repl" and "backslash \<notin> set code"
  shows "splice_text compile_repl code orig = Inr (re_sub (\<lambda>m. template code) orig)"
proof -
  from assms(2) have "backslash \<notin> set (template code)" by (rule template_no_backslash)
  with assms(1) have "compile_repl (template code) = Inr (\<lambda>m. template code)"
    by (simp add: literal_repl_def)
  then show ?thesis by (simp add: splice_text_def)
qed

section \<open>Reading the target\<close>

lemma read_text_Cons: "c \<noteq> carriage_return \<Longrightarrow> read_text (c # x) = c # read_text x"
  by (cases x) simp_all

lemma read_text_cr: "\<exists>y. read_text (carriage_return # x) = nl # y"
  by (cases x) simp_all

lemma read_text_plain_prefix:
  "carriage_return \<notin> set p \<Longrightarrow> read_text (p @ x) = p @ read_text x"
proof (induction p)
  case Nil
  then show ?case by simp
next
  case (Cons a p)
  then have a: "a \<noteq> carriage_return" and ih: "read_text (p @ x) = p @ read_text x" by auto
  have "read_text ((a # p) @ x) = read_text (a # (p @ x))" by simp
  also from a have "\<dots> = a # read_text (p @ x)" by (rule read_text_Cons)
  also have "\<dots> = (a # p) @ read_text x" by (simp only: ih append_Cons)
  finally show ?case .
qed

lemma read_text_plain: "carriage_return \<notin> set s \<Longrightarrow> read_text s = s"
  using read_text_plain_prefix [of s "[]"] by simp

lemma read_text_no_cr: "carriage_return \<notin> set (read_text s)"
  by (induction s rule: read_text.induct) (simp_all add: nl_def carriage_return_def)

lemma read_text_append:
  "c \<noteq> nl \<Longrightarrow> read_text (a @ c # x) = read_text a @ read_text (c # x)"
  by (induction a rule: read_text.induct) simp_all

lemma read_text_take:
  assumes "carriage_return \<notin> set pat" and "nl \<notin> set pat"
    and "take (length pat) (read_text x) = pat"
  shows "take (length pat) x = pat"
  using assms
proof (induction pat arbitrary: x)
  case Nil
  then show ?case by simp
next
  case (Cons p ps)
  show ?case
  proof (cases x)
    case Nil
    with Cons.prems show ?thesis by simp
  next
    case (Cons c cs)
    show ?thesis
    proof (cases "c = carriage_return")
      case True
      with read_text_cr [of cs] obtain y where "read_text (c # cs) = nl # y" by blast
      with Cons.prems \<open>x = c # cs\<close> have "p = nl" by simp
      with Cons.prems show ?thesis by simp
    next
      case False
      then have "read_text (c # cs) = c # read_text cs" by (rule read_text_Cons)
      with Cons.prems \<open>x = c # cs\<close> have "p = c" and "take (length ps) (read_text cs) = ps"
        by simp_all
      moreover from Cons.prems have "carriage_return \<notin> set ps" and "nl \<notin> set ps" by simp_all
      ultimately have "take (length ps) cs = ps" using Cons.IH by blast
      with \<open>p = c\<close> \<open>x = c # cs\<close> show ?thesis by simp
    qed
  qed
qed

lemma find_sub_later: "find_sub pat cs \<noteq> None \<Longrightarrow> find_sub pat (c # cs) \<noteq> None"
  by (auto split: option.splits)

lemma find_sub_here:
  assumes "take (length pat) s = pat" and "pat \<noteq> []"
  shows "find_sub pat s \<noteq> None"
  using assms by (cases s) auto

lemma find_sub_Cons_cases:
  assumes "find_sub pat (c # y) \<noteq> None"
  shows "take (length pat) (c # y) = pat \<or> find_sub pat y \<noteq> None"
  using assms by (auto split: if_splits option.splits)

lemma find_sub_read_text:
  assumes "carriage_return \<notin> set pat" and "nl \<notin> set pat" and "pat \<noteq> []"
  shows "find_sub pat (read_text s) \<noteq> None \<Longrightarrow> find_sub pat s \<noteq> None"
proof (induction s rule: read_text.induct)
  case 1
  then show ?case by simp
next
  case (2 c)
  show ?case
  proof (cases "c = carriage_return")
    case True
    with 2 have "find_sub pat [nl] \<noteq> None" by simp
    then have "take (length pat) [nl] = pat" using assms(3)
      by (auto split: if_splits option.splits)
    with assms(3) have "pat = [nl]" by (cases pat) (auto split: if_splits)
    with assms(2) show ?thesis by simp
  next
    case False
    with 2 show ?thesis by simp
  qed
next
  case (3 c d ds)
  show ?case
  proof (cases "c = carriage_return")
    case True
    note c = this
    show ?thesis
    proof (cases "d = nl")
      case True
      with c "3.prems" have "find_sub pat (nl # read_text ds) \<noteq> None" by simp
      then have "take (length pat) (nl # read_text ds) = pat \<or> find_sub pat (read_text ds) \<noteq> None"
        by (rule find_sub_Cons_cases)
      moreover have "take (length pat) (nl # read_text ds) \<noteq> pat"
        using assms(2,3) by (cases pat) auto
      ultimately have "find_sub pat (read_text ds) \<noteq> None" by simp
      with c True have "find_sub pat ds \<noteq> None" using "3.IH"(1) by simp
      then have "find_sub pat (d # ds) \<noteq> None" by (rule find_sub_later)
      then show ?thesis by (rule find_sub_later)
    next
      case False
      with c "3.prems" have "find_sub pat (nl # read_text (d # ds)) \<noteq> None" by simp
      then have "take (length pat) (nl # read_text (d # ds)) = pat \<or>
                 find_sub pat (read_text (d # ds)) \<noteq> None"
        by (rule find_sub_Cons_cases)
      moreover have "take (length pat) (nl # read_text (d # ds)) \<noteq> pat"
        using assms(2,3) by (cases pat) auto
      ultimately have "find_sub pat (read_text (d # ds)) \<noteq> None" by simp
      with c False have "find_sub pat (d # ds) \<noteq> None" using "3.IH"(2) by simp
      then show ?thesis by (rule find_sub_later)
    qed
  next
    case False
    then have rt: "read_text (c # d # ds) = c # read_text (d # ds)" by simp
    with "3.prems" have "find_sub pat (c # read_text (d # ds)) \<noteq> None" by simp
    then have "take (length pat) (c # read_text (d # ds)) = pat \<or>
                 find_sub pat (read_text (d # ds)) \<noteq> None"
      by (rule find_sub_Cons_cases)
    then show ?thesis
    proof
      assume "take (length pat) (c # read_text (d # ds)) = pat"
      with rt have "take (length pat) (read_text (c # d # ds)) = pat" by simp
      with assms(1,2) have "take (length pat) (c # d # ds) = pat" by (rule read_text_take)
      then show ?thesis using assms(3) by (rule find_sub_here)
    next
      assume "find_sub pat (read_text (d # ds)) \<noteq> None"
      with False have "find_sub pat (d # ds) \<noteq> None" using "3.IH"(3) by simp
      then show ?thesis by (rule find_sub_later)
    qed
  qed
qed

lemma find_sub_before:
  assumes "pat \<noteq> []"
  shows "find_sub pat s = Some (b, a) \<Longrightarrow> find_sub pat b = None"
proof (induction s arbitrary: b)
  case Nil
  with assms show ?case by simp
next
  case (Cons c cs)
  show ?case
  proof (cases "take (length pat) (c # cs) = pat")
    case True
    with Cons.prems have "b = []" by simp
    with assms show ?thesis by simp
  next
    case False
    with Cons.prems obtain b' where f: "find_sub pat cs = Some (b', a)" and b: "b = c # b'"
      by (auto split: option.splits)
    from f have ih: "find_sub pat b' = None" by (rule Cons.IH)
    from f have cs: "cs = b' @ pat @ a" by (rule find_sub_Some)
    have "take (length pat) (c # b') \<noteq> pat"
    proof
      assume eq: "take (length pat) (c # b') = pat"
      then have "length (take (length pat) (c # b')) = length pat" by simp
      then have "length pat \<le> length (c # b')" unfolding length_take by linarith
      then have "take (length pat) ((c # b') @ pat @ a) = take (length pat) (c # b')"
        by (rule take_append_long)
      with eq cs have "take (length pat) (c # cs) = pat" by simp
      with False show False by simp
    qed
    with ih b show ?thesis by simp
  qed
qed

lemma marker_plain: "carriage_return \<notin> set marker" "nl \<notin> set marker" "marker \<noteq> []"
  by (simp_all add: marker_def carriage_return_def nl_def)

lemma find_marker_read_text:
  assumes "find_sub marker s = None"
  shows "find_sub marker (read_text s) = None"
proof (rule ccontr)
  assume "find_sub marker (read_text s) \<noteq> None"
  then have "find_sub marker s \<noteq> None" by (rule find_sub_read_text [OF marker_plain])
  with assms show False by simp
qed

lemma read_text_marker:
  "read_text (p @ marker @ r) = read_text p @ marker @ read_text r"
proof -
  define t where "t = '' @@AUTOGEN@@'' @ r"
  have m: "marker @ r = CHR ''#'' # t" by (simp add: marker_def t_def)
  have "read_text (p @ marker @ r) = read_text (p @ CHR ''#'' # t)" by (simp only: m)
  also have "\<dots> = read_text p @ read_text (CHR ''#'' # t)"
    by (rule read_text_append) (simp add: nl_def)
  also have "read_text (CHR ''#'' # t) = read_text (marker @ r)" by (simp only: m)
  also have "\<dots> = marker @ read_text r"
    by (rule read_text_plain_prefix) (rule marker_plain)
  finally show ?thesis .
qed

lemma marker_pair_read_text:
  assumes "spec_has_marker_pair (read_text s)"
  shows "spec_has_marker_pair s"
proof (cases "find_sub marker s")
  case None
  then have "find_sub marker (read_text s) = None" by (rule find_marker_read_text)
  with assms show ?thesis by (simp add: spec_has_marker_pair_def)
next
  case (Some q)
  obtain p r where q: "q = (p, r)" by (cases q)
  with Some have f: "find_sub marker s = Some (p, r)" by simp
  then have s: "s = p @ marker @ r" by (rule find_sub_Some)
  from f have "find_sub marker p = None" using marker_plain(3) find_sub_before by blast
  then have "find_sub marker (read_text p) = None" by (rule find_marker_read_text)
  then have "find_sub marker (read_text p @ marker @ read_text r) =
             Some (read_text p, read_text r)"
    by (rule find_sub_marker)
  with s have "find_sub marker (read_text s) = Some (read_text p, read_text r)"
    by (simp add: read_text_marker)
  with assms have "find_sub marker (read_text r) \<noteq> None"
    by (simp add: spec_has_marker_pair_def)
  then have "find_sub marker r \<noteq> None" by (rule find_sub_read_text [OF marker_plain])
  with f show ?thesis by (simp add: spec_has_marker_pair_def)
qed

lemma read_text_template:
  "read_text (template code @ x) = template (read_text code) @ read_text x"
proof -
  have pl: "carriage_return \<notin> set (marker @ [nl, nl])"
    using marker_plain(1) by (simp add: nl_def carriage_return_def)
  have "read_text (template code @ x) = read_text ((marker @ [nl, nl]) @ code @ marker @ [nl] @ x)"
    by (simp add: template_def)
  also have "\<dots> = (marker @ [nl, nl]) @ read_text (code @ marker @ [nl] @ x)"
    by (rule read_text_plain_prefix) (rule pl)
  also have "read_text (code @ marker @ [nl] @ x) = read_text code @ marker @ read_text ([nl] @ x)"
    by (rule read_text_marker)
  also have "read_text ([nl] @ x) = [nl] @ read_text x"
    by (rule read_text_plain_prefix) (simp add: nl_def carriage_return_def)
  finally show ?thesis by (simp add: template_def)
qed


section \<open>C5: a target without the marker pair\<close>

text \<open>
  C5 (amended).  For a target file that does not contain the sentinel marker pair, a
  run inserts no blob: the file is left as it was or holds its text as read, with
  every line ending turned into a newline; the latter when the blob is generated and
  the replacement compiles, the substitution returning the text itself.  A file
  without a carriage return is left unchanged in every case.
\<close>

theorem missing_markers_no_op:
  assumes "\<not> spec_has_marker_pair file"
  shows "(snd (main compile_repl hs file) = file \<or>
          snd (main compile_repl hs file) = read_text file) \<and>
         (\<forall>code f. gen_code hs = Inr code \<and> compile_repl (template code) = Inr f \<longrightarrow>
            splice_text compile_repl code (read_text file) = Inr (read_text file) \<and>
            main compile_repl hs file = (None, read_text file)) \<and>
         (carriage_return \<notin> set file \<longrightarrow> snd (main compile_repl hs file) = file)"
proof -
  from assms have "\<not> spec_has_marker_pair (read_text file)"
    using marker_pair_read_text by blast
  then have r: "re_sub f (read_text file) = read_text file" for f by (rule re_sub_no_pair)
  have 1: "snd (main compile_repl hs file) = file \<or>
          snd (main compile_repl hs file) = read_text file"
    by (auto simp: main_def new_text_def splice_text_def r split: sum.splits)
  have 2: "\<forall>code f. gen_code hs = Inr code \<and> compile_repl (template code) = Inr f \<longrightarrow>
            splice_text compile_repl code (read_text file) = Inr (read_text file) \<and>
            main compile_repl hs file = (None, read_text file)"
    by (auto simp: main_def new_text_def splice_text_def r)
  have 3: "carriage_return \<notin> set file \<longrightarrow> snd (main compile_repl hs file) = file"
    using 1 by (auto simp: read_text_plain)
  from 1 2 3 show ?thesis by blast
qed

text \<open>The theorem at a text with a single marker, for the hook list of the source.\<close>

theorem missing_markers_no_op_witness:
  "\<not> spec_has_marker_pair ''x = 1\<newline># @@AUTOGEN@@\<newline>y = 2\<newline>'' \<and>
   carriage_return \<notin> set ''x = 1\<newline># @@AUTOGEN@@\<newline>y = 2\<newline>'' \<and>
   snd (main (\<lambda>t. Inr (\<lambda>m. t)) hooks ''x = 1\<newline># @@AUTOGEN@@\<newline>y = 2\<newline>'') =
     ''x = 1\<newline># @@AUTOGEN@@\<newline>y = 2\<newline>''"
proof -
  have np: "\<not> spec_has_marker_pair ''x = 1\<newline># @@AUTOGEN@@\<newline>y = 2\<newline>''"
    by code_simp
  have nc: "carriage_return \<notin> set ''x = 1\<newline># @@AUTOGEN@@\<newline>y = 2\<newline>''"
    by (simp add: carriage_return_def)
  from missing_markers_no_op [OF np, of "\<lambda>t. Inr (\<lambda>m. t)" hooks] np nc
  show ?thesis by blast
qed

text \<open>
  C5 as stated fails for a file with carriage returns: it is read in text mode and
  written in binary mode, so a file without any marker is written back with its line
  endings changed.
\<close>

theorem line_endings_counterexample:
  "\<not> spec_has_marker_pair (''x = 1'' @ [CHR 0x0D, CHR 0x0A] @ ''y = 2'' @ [CHR 0x0D, CHR 0x0A]) \<and>
   main (\<lambda>t. Inr (\<lambda>m. t)) hooks
     (''x = 1'' @ [CHR 0x0D, CHR 0x0A] @ ''y = 2'' @ [CHR 0x0D, CHR 0x0A]) =
     (None, ''x = 1\<newline>y = 2\<newline>'') \<and>
   ''x = 1\<newline>y = 2\<newline>'' \<noteq> ''x = 1'' @ [CHR 0x0D, CHR 0x0A] @ ''y = 2'' @ [CHR 0x0D, CHR 0x0A]"
  by code_simp

section \<open>C4: what the splice replaces\<close>

text \<open>
  C4 (amended).  For a blob without a backslash: when the text is \<open>pre\<close>, the marker,
  \<open>mid\<close>, the marker followed by a newline, \<open>post\<close>, no marker occurring in
  \<open>pre\<close> and no marker followed by a newline in \<open>mid\<close>, the splice replaces that
  region, both markers included, by the marker, a blank line, the blob and the marker
  with its newline; \<open>pre\<close> is kept, and \<open>post\<close> is spliced in the same way, so that it
  is kept as it is when it holds no further marker pair.  The concrete example of the
  claim holds as written.
\<close>

theorem splice_replaces_regions:
  assumes "find_sub marker pre = None" and "find_sub (marker @ [nl]) mid = None"
    and "literal_repl compile_repl" and "backslash \<notin> set code"
  shows "splice_text compile_repl code (pre @ marker @ mid @ marker @ [nl] @ post) =
           Inr (pre @ marker @ [nl, nl] @ code @ marker @ [nl] @
                re_sub (\<lambda>m. template code) post) \<and>
         (\<not> spec_has_marker_pair post \<longrightarrow>
            splice_text compile_repl code (pre @ marker @ mid @ marker @ [nl] @ post) =
              Inr (pre @ marker @ [nl, nl] @ code @ marker @ [nl] @ post)) \<and>
         splice_text compile_repl ''NEW\<newline>''
             ''A\<newline># @@AUTOGEN@@\<newline>OLD\<newline># @@AUTOGEN@@\<newline>B\<newline>'' =
           Inr ''A\<newline># @@AUTOGEN@@\<newline>\<newline>NEW\<newline># @@AUTOGEN@@\<newline>B\<newline>''"
proof -
  let ?f = "\<lambda>m::string. template code"
  have "splice_text compile_repl code (pre @ marker @ mid @ marker @ [nl] @ post) =
        Inr (re_sub ?f (pre @ marker @ mid @ marker @ [nl] @ post))"
    using assms(3,4) by (rule splice_literal)
  also have "re_sub ?f (pre @ marker @ mid @ marker @ [nl] @ post) =
             pre @ template code @ re_sub ?f post"
    using assms(1,2) by (rule re_sub_region)
  finally have 1: "splice_text compile_repl code (pre @ marker @ mid @ marker @ [nl] @ post) =
           Inr (pre @ marker @ [nl, nl] @ code @ marker @ [nl] @ re_sub ?f post)"
    by (simp add: template_def)
  have 2: "\<not> spec_has_marker_pair post \<longrightarrow>
            splice_text compile_repl code (pre @ marker @ mid @ marker @ [nl] @ post) =
              Inr (pre @ marker @ [nl, nl] @ code @ marker @ [nl] @ post)"
    using 1 by (simp add: re_sub_no_pair)
  have "backslash \<notin> set ''NEW\<newline>''" by (simp add: backslash_def)
  with assms(3) have "splice_text compile_repl ''NEW\<newline>''
             ''A\<newline># @@AUTOGEN@@\<newline>OLD\<newline># @@AUTOGEN@@\<newline>B\<newline>'' =
           Inr (re_sub (\<lambda>m. template ''NEW\<newline>'')
             ''A\<newline># @@AUTOGEN@@\<newline>OLD\<newline># @@AUTOGEN@@\<newline>B\<newline>'')"
    by (rule splice_literal)
  also have "re_sub (\<lambda>m. template ''NEW\<newline>'')
             ''A\<newline># @@AUTOGEN@@\<newline>OLD\<newline># @@AUTOGEN@@\<newline>B\<newline>'' =
           ''A\<newline># @@AUTOGEN@@\<newline>\<newline>NEW\<newline># @@AUTOGEN@@\<newline>B\<newline>''"
    by code_simp
  finally have 3: "splice_text compile_repl ''NEW\<newline>''
             ''A\<newline># @@AUTOGEN@@\<newline>OLD\<newline># @@AUTOGEN@@\<newline>B\<newline>'' =
           Inr ''A\<newline># @@AUTOGEN@@\<newline>\<newline>NEW\<newline># @@AUTOGEN@@\<newline>B\<newline>''" .
  from 1 2 3 show ?thesis by blast
qed

text \<open>The theorem at the example of the claim, cut into its five parts.\<close>

theorem splice_replaces_regions_witness:
  "find_sub marker ''A\<newline>'' = None \<and>
   find_sub (marker @ [nl]) ''\<newline>OLD\<newline>'' = None \<and>
   literal_repl (\<lambda>t. if backslash \<in> set t then Inl ReError else Inr (\<lambda>m. t)) \<and>
   backslash \<notin> set ''NEW\<newline>'' \<and>
   splice_text (\<lambda>t. if backslash \<in> set t then Inl ReError else Inr (\<lambda>m. t)) ''NEW\<newline>''
       (''A\<newline>'' @ marker @ ''\<newline>OLD\<newline>'' @ marker @ [nl] @ ''B\<newline>'') =
     Inr (''A\<newline>'' @ marker @ [nl, nl] @ ''NEW\<newline>'' @ marker @ [nl] @ ''B\<newline>'')"
proof -
  let ?cr = "\<lambda>t. if backslash \<in> set t then Inl ReError else Inr (\<lambda>m::string. t)"
  have a: "find_sub marker ''A\<newline>'' = None" by code_simp
  have b: "find_sub (marker @ [nl]) ''\<newline>OLD\<newline>'' = None" by code_simp
  have c: "literal_repl ?cr" by (simp add: literal_repl_def)
  have d: "backslash \<notin> set ''NEW\<newline>''" by (simp add: backslash_def)
  have e: "\<not> spec_has_marker_pair ''B\<newline>''" by code_simp
  from splice_replaces_regions [OF a b c d, of "''B\<newline>''"] e
  have "splice_text ?cr ''NEW\<newline>''
       (''A\<newline>'' @ marker @ ''\<newline>OLD\<newline>'' @ marker @ [nl] @ ''B\<newline>'') =
     Inr (''A\<newline>'' @ marker @ [nl, nl] @ ''NEW\<newline>'' @ marker @ [nl] @ ''B\<newline>'')"
    by blast
  with a b c d show ?thesis by blast
qed

text \<open>
  C4 as stated fails in two ways, shown here with the replacement taken literally, as
  \<open>re\<close> does for a template without a backslash.  With two marker pairs, \<open>re.sub\<close>
  replaces the second region as well, which lies outside the first pair.  With a
  closing marker that no newline follows, nothing is replaced.
\<close>

theorem splice_counterexample:
  "splice_text (\<lambda>t. Inr (\<lambda>m. t)) ''NEW\<newline>''
       ''# @@AUTOGEN@@\<newline>X\<newline># @@AUTOGEN@@\<newline>B\<newline># @@AUTOGEN@@\<newline>Y\<newline># @@AUTOGEN@@\<newline>'' =
     Inr ''# @@AUTOGEN@@\<newline>\<newline>NEW\<newline># @@AUTOGEN@@\<newline>B\<newline># @@AUTOGEN@@\<newline>\<newline>NEW\<newline># @@AUTOGEN@@\<newline>'' \<and>
   splice_text (\<lambda>t. Inr (\<lambda>m. t)) ''NEW\<newline>''
       ''# @@AUTOGEN@@\<newline>X\<newline># @@AUTOGEN@@\<newline>B\<newline># @@AUTOGEN@@\<newline>Y\<newline># @@AUTOGEN@@\<newline>'' \<noteq>
     Inr ''# @@AUTOGEN@@\<newline>\<newline>NEW\<newline># @@AUTOGEN@@\<newline>B\<newline># @@AUTOGEN@@\<newline>Y\<newline># @@AUTOGEN@@\<newline>'' \<and>
   splice_text (\<lambda>t. Inr (\<lambda>m. t)) ''NEW\<newline>'' ''# @@AUTOGEN@@\<newline>OLD\<newline># @@AUTOGEN@@'' =
     Inr ''# @@AUTOGEN@@\<newline>OLD\<newline># @@AUTOGEN@@'' \<and>
   splice_text (\<lambda>t. Inr (\<lambda>m. t)) ''NEW\<newline>'' ''# @@AUTOGEN@@\<newline>OLD\<newline># @@AUTOGEN@@'' \<noteq>
     Inr ''# @@AUTOGEN@@\<newline>\<newline>NEW\<newline># @@AUTOGEN@@''"
  by code_simp

section \<open>C7: running twice\<close>

lemma find_sub_blob_end:
  assumes "find_sub marker code = None"
  shows "find_sub (marker @ [nl]) ([nl, nl] @ code @ marker @ [nl] @ x) = Some ([nl, nl] @ code, x)"
proof -
  from assms have "find_sub marker ([nl, nl] @ code) = None"
    by (simp add: marker_def nl_def)
  then have "find_sub (marker @ [nl]) ([nl, nl] @ code) = None" by (rule find_sub_append_None)
  then have "find_sub (marker @ [nl]) (([nl, nl] @ code) @ marker @ [nl] @ x) =
             Some ([nl, nl] @ code, x)"
    by (rule find_sub_marker_nl)
  then show ?thesis by simp
qed

lemma re_sub_template:
  assumes "find_sub marker code = None" and "find_sub marker s = Some (pre, rest)"
  shows "re_sub f (pre @ template code @ x) = pre @ f (template code) @ re_sub f x"
proof -
  have 1: "find_sub marker (pre @ marker @ [nl, nl] @ code @ marker @ [nl] @ x) =
           Some (pre, [nl, nl] @ code @ marker @ [nl] @ x)"
    using assms(2) by (rule find_sub_first)
  have 2: "find_sub (marker @ [nl]) ([nl, nl] @ code @ marker @ [nl] @ x) =
           Some ([nl, nl] @ code, x)"
    using assms(1) by (rule find_sub_blob_end)
  have "re_sub f (pre @ marker @ [nl, nl] @ code @ marker @ [nl] @ x) =
        pre @ f (marker @ ([nl, nl] @ code) @ marker @ [nl]) @ re_sub f x"
    by (subst re_sub.simps) (simp only: 1 2 option.case prod.case)
  then show ?thesis by (simp add: template_def)
qed

lemma re_sub_idempotent:
  assumes "find_sub marker code = None"
  shows "re_sub (\<lambda>m. template code) (re_sub (\<lambda>m. template code) s) =
         re_sub (\<lambda>m. template code) s"
proof (induction s rule: length_induct)
  case (1 s)
  let ?f = "\<lambda>m::string. template code"
  show ?case
  proof (cases "find_sub marker s")
    case None
    then have "re_sub ?f s = s" by (subst re_sub.simps) simp
    then show ?thesis by simp
  next
    case (Some r)
    obtain pre rest where r: "r = (pre, rest)" by (cases r)
    with Some have fs: "find_sub marker s = Some (pre, rest)" by simp
    show ?thesis
    proof (cases "find_sub (marker @ [nl]) rest")
      case None
      with fs have "re_sub ?f s = s" by (subst re_sub.simps) simp
      then show ?thesis by simp
    next
      case (Some q)
      obtain mid post where q: "q = (mid, post)" by (cases q)
      with Some have fr: "find_sub (marker @ [nl]) rest = Some (mid, post)" by simp
      from fs fr have step: "re_sub ?f s = pre @ template code @ re_sub ?f post"
        by (subst re_sub.simps) simp
      from fs have "s = pre @ marker @ rest" by (rule find_sub_Some)
      moreover from fr have "rest = mid @ (marker @ [nl]) @ post" by (rule find_sub_Some)
      ultimately have "length post < length s" by simp
      with "1.IH" have ih: "re_sub ?f (re_sub ?f post) = re_sub ?f post" by blast
      have "re_sub ?f (pre @ template code @ re_sub ?f post) =
            pre @ template code @ re_sub ?f (re_sub ?f post)"
        using assms fs by (rule re_sub_template)
      with step ih show ?thesis by simp
    qed
  qed
qed

lemma re_sub_read_text_idempotent:
  assumes "find_sub marker code = None"
  shows "carriage_return \<notin> set s \<Longrightarrow>
         re_sub (\<lambda>m. template code) (read_text (re_sub (\<lambda>m. template code) s)) =
         re_sub (\<lambda>m. template code) s"
proof (induction s rule: length_induct)
  case (1 s)
  let ?f = "\<lambda>m::string. template code"
  from "1.prems" have plain: "read_text s = s" by (rule read_text_plain)
  show ?case
  proof (cases "find_sub marker s")
    case None
    then have "re_sub ?f s = s" by (subst re_sub.simps) simp
    with plain show ?thesis by simp
  next
    case (Some q)
    obtain pre rest where q: "q = (pre, rest)" by (cases q)
    with Some have fs: "find_sub marker s = Some (pre, rest)" by simp
    show ?thesis
    proof (cases "find_sub (marker @ [nl]) rest")
      case None
      with fs have "re_sub ?f s = s" by (subst re_sub.simps) simp
      with plain show ?thesis by simp
    next
      case (Some u)
      obtain mid post where u: "u = (mid, post)" by (cases u)
      with Some have fr: "find_sub (marker @ [nl]) rest = Some (mid, post)" by simp
      from fs fr have step: "re_sub ?f s = pre @ template code @ re_sub ?f post"
        by (subst re_sub.simps) simp
      from fs have s: "s = pre @ marker @ rest" by (rule find_sub_Some)
      from fr have rest: "rest = mid @ (marker @ [nl]) @ post" by (rule find_sub_Some)
      from s rest have "length post < length s" by simp
      moreover from s rest "1.prems" have "carriage_return \<notin> set post"
        and pre: "carriage_return \<notin> set pre" by simp_all
      ultimately have ih: "re_sub ?f (read_text (re_sub ?f post)) = re_sub ?f post"
        using "1.IH" by blast
      from assms have "find_sub marker (read_text code) = None" by (rule find_marker_read_text)
      then have "re_sub ?f (pre @ template (read_text code) @ read_text (re_sub ?f post)) =
            pre @ template code @ re_sub ?f (read_text (re_sub ?f post))"
        using fs by (rule re_sub_template)
      moreover have "read_text (pre @ template code @ re_sub ?f post) =
            pre @ template (read_text code) @ read_text (re_sub ?f post)"
        using pre by (simp add: read_text_plain_prefix read_text_template)
      ultimately show ?thesis using step ih by simp
    qed
  qed
qed

text \<open>
  C7 (amended).  When the blob generated from the declarations holds neither the
  marker nor a backslash, a run succeeds on every target file and writes the splice
  of the text read, and a second run on the file written by the first has the same
  outcome: it writes that text again.
\<close>

theorem generation_idempotent:
  assumes "literal_repl compile_repl" and "gen_code hs = Inr code"
    and "backslash \<notin> set code" and "find_sub marker code = None"
  shows "main compile_repl hs file = (None, re_sub (\<lambda>m. template code) (read_text file)) \<and>
         main compile_repl hs (snd (main compile_repl hs file)) = main compile_repl hs file"
proof -
  let ?f = "\<lambda>m::string. template code"
  have sp: "splice_text compile_repl code orig = Inr (re_sub ?f orig)" for orig
    using assms(1,3) by (rule splice_literal)
  with assms(2) have m: "main compile_repl hs orig = (None, re_sub ?f (read_text orig))" for orig
    by (simp add: main_def new_text_def)
  have "carriage_return \<notin> set (read_text file)" by (rule read_text_no_cr)
  with assms(4)
  have "re_sub ?f (read_text (re_sub ?f (read_text file))) = re_sub ?f (read_text file)"
    by (rule re_sub_read_text_idempotent)
  with m show ?thesis by simp
qed

text \<open>The theorem at the odue_invalid hook and the target of the splice example.\<close>

theorem generation_idempotent_witness:
  "gen_code [\<lparr>name = ''odue_invalid'', cb_args = [], return_type = None, legacy_hook = None\<rparr>] =
     Inr ''odue_invalid_hook: List[Callable[[], None]] = []\<newline>\<newline>\<newline>def run_odue_invalid_hook() -> None:\<newline>    for hook in odue_invalid_hook:\<newline>        try:\<newline>            hook()\<newline>        except:\<newline>            # if the hook fails, remove it\<newline>            odue_invalid_hook.remove(hook)\<newline>            raise\<newline>\<newline>\<newline>'' \<and>
   main (\<lambda>t. if backslash \<in> set t then Inl ReError else Inr (\<lambda>m. t))
     [\<lparr>name = ''odue_invalid'', cb_args = [], return_type = None, legacy_hook = None\<rparr>]
     (snd (main (\<lambda>t. if backslash \<in> set t then Inl ReError else Inr (\<lambda>m. t))
        [\<lparr>name = ''odue_invalid'', cb_args = [], return_type = None, legacy_hook = None\<rparr>]
        ''A\<newline># @@AUTOGEN@@\<newline>OLD\<newline># @@AUTOGEN@@\<newline>B\<newline>'')) =
   main (\<lambda>t. if backslash \<in> set t then Inl ReError else Inr (\<lambda>m. t))
     [\<lparr>name = ''odue_invalid'', cb_args = [], return_type = None, legacy_hook = None\<rparr>]
     ''A\<newline># @@AUTOGEN@@\<newline>OLD\<newline># @@AUTOGEN@@\<newline>B\<newline>''"
proof -
  let ?cr = "\<lambda>t. if backslash \<in> set t then Inl ReError else Inr (\<lambda>m::string. t)"
  let ?hs = "[\<lparr>name = ''odue_invalid'', cb_args = [], return_type = None, legacy_hook = None\<rparr>]"
  let ?code = "''odue_invalid_hook: List[Callable[[], None]] = []\<newline>\<newline>\<newline>def run_odue_invalid_hook() -> None:\<newline>    for hook in odue_invalid_hook:\<newline>        try:\<newline>            hook()\<newline>        except:\<newline>            # if the hook fails, remove it\<newline>            odue_invalid_hook.remove(hook)\<newline>            raise\<newline>\<newline>\<newline>''"
  have a: "literal_repl ?cr" by (simp add: literal_repl_def)
  have b: "gen_code ?hs = Inr ?code" by code_simp
  have c: "backslash \<notin> set ?code" by code_simp
  have d: "find_sub marker ?code = None" by code_simp
  from generation_idempotent [OF a b c d] b show ?thesis by blast
qed

text \<open>
  C7 as stated fails when the blob itself holds the marker followed by a newline,
  here through a filter whose first argument bears the marker as its name: the
  second run closes the region inside the blob of the first and the text grows.
\<close>

theorem marker_in_blob_counterexample:
  "spec_has_marker_pair ''# @@AUTOGEN@@\<newline># @@AUTOGEN@@\<newline>'' \<and>
   snd (main (\<lambda>t. Inr (\<lambda>m. t))
     [\<lparr>name = ''f'', cb_args = ''# @@AUTOGEN@@: int'', return_type = Some ''int'',
        legacy_hook = None\<rparr>]
     (snd (main (\<lambda>t. Inr (\<lambda>m. t))
        [\<lparr>name = ''f'', cb_args = ''# @@AUTOGEN@@: int'', return_type = Some ''int'',
           legacy_hook = None\<rparr>]
        ''# @@AUTOGEN@@\<newline># @@AUTOGEN@@\<newline>''))) \<noteq>
   snd (main (\<lambda>t. Inr (\<lambda>m. t))
     [\<lparr>name = ''f'', cb_args = ''# @@AUTOGEN@@: int'', return_type = Some ''int'',
        legacy_hook = None\<rparr>]
     ''# @@AUTOGEN@@\<newline># @@AUTOGEN@@\<newline>'')"
  by code_simp

section \<open>C1: a callback that raises\<close>








section \<open>C2: the filter chain\<close>





section \<open>C3: the legacy call\<close>





end
